theory Spec2Isabelle
  imports Main "HOL-Library.Word"
begin

section \<open>Sirikata transfer data: dense chunks and the sparse set of chunks\<close>

text \<open>
  The development follows \<^verbatim>\<open>libcore/src/transfer/TransferData.hpp\<close>: the class
  \<^verbatim>\<open>DenseData\<close> (a byte buffer together with the range of the file it fills) and the
  class \<^verbatim>\<open>SparseData\<close> (a list of such chunks with the query \<^verbatim>\<open>dataAt\<close> and the
  accounting function \<^verbatim>\<open>getSpaceUsed\<close>).

  Offsets and lengths have the unsigned type \<^verbatim>\<open>cache_usize_type\<close>
  (\<^verbatim>\<open>Range::base_type\<close>, \<^verbatim>\<open>Range::length_type\<close>), whose declaration is in
  \<^verbatim>\<open>Range.hpp\<close>. Its width is a parameter here: the type \<open>'a word\<close>, with
  wrap-around arithmetic. \<^verbatim>\<open>size_t\<close> is taken to be at least as wide, so that the
  cast \<^verbatim>\<open>(size_t)\<close> in \<^verbatim>\<open>SparseData::dataAt\<close> is the identity.
\<close>

type_synonym byte = "8 word"

subsection \<open>Range\<close>

text \<open>
  Modelled from the spec: \<^verbatim>\<open>Range.hpp\<close> (the class \<^verbatim>\<open>Range\<close> with
  \<^verbatim>\<open>startbyte\<close>, \<^verbatim>\<open>endbyte\<close>, \<^verbatim>\<open>length\<close>, \<^verbatim>\<open>goesToEndOfFile\<close>,
  \<^verbatim>\<open>setLength\<close>) is missing. The spec's Interval has a start, an end with
  \<open>length = end - start\<close>, and a flag for "extends to the end of the file"; the call
  \<^verbatim>\<open>Range::setLength(len, is_npos)\<close> in \<^verbatim>\<open>DenseData::setLength\<close> shows that a length
  and the flag are stored side by side. The end is \<open>start + length\<close>.
\<close>

record (overloaded) ('a::len) Range =
  mStart :: "'a word"
  mLength :: "'a word"
  mWholeFile :: bool

text \<open>Modelled from the spec: \<^verbatim>\<open>Range::startbyte\<close> (missing), the Interval's start.\<close>

definition startbyte :: "('a::len, 'b) Range_scheme \<Rightarrow> 'a word" where
  "startbyte r = mStart r"

text \<open>
  Modelled from the spec: \<^verbatim>\<open>Range::length\<close> (missing); for an unbounded range it
  is the length of the bytes materialised so far, as set by \<^verbatim>\<open>setLength\<close>.
\<close>

definition Range_length :: "('a::len, 'b) Range_scheme \<Rightarrow> 'a word" where
  "Range_length r = mLength r"

text \<open>Modelled from the spec: \<^verbatim>\<open>Range::endbyte\<close> (missing), \<open>start + length\<close>.\<close>

definition endbyte :: "('a::len, 'b) Range_scheme \<Rightarrow> 'a word" where
  "endbyte r = mStart r + mLength r"

text \<open>
  Modelled from the spec: \<^verbatim>\<open>Range::goesToEndOfFile\<close> (missing), the Interval's
  flag \<open>unbounded\<close>.
\<close>

definition goesToEndOfFile :: "('a::len, 'b) Range_scheme \<Rightarrow> bool" where
  "goesToEndOfFile r = mWholeFile r"

text \<open>
  Modelled from the spec: \<^verbatim>\<open>Range::setLength\<close> (missing); it "updates the Interval's
  end" and keeps or clears the flag.
\<close>

definition Range_setLength ::
  "('a::len, 'b) Range_scheme \<Rightarrow> 'a word \<Rightarrow> bool \<Rightarrow> ('a, 'b) Range_scheme" where
  "Range_setLength r l wholeFile = r\<lparr>mLength := l, mWholeFile := wholeFile\<rparr>"

subsection \<open>DenseData\<close>

text \<open>
  \<^verbatim>\<open>class DenseData : public Range\<close> adds the buffer \<^verbatim>\<open>std::vector<unsigned char> mData\<close>.
  A pointer into the buffer is modelled by the view it gives: the bytes from the
  position pointed at to the end of the buffer; \<^verbatim>\<open>NULL\<close> is \<open>None\<close>.
  \<^verbatim>\<open>mData[i]\<close> with \<open>i\<close> outside the vector is undefined behaviour in C++; the model
  makes it the error \<open>OutOfBounds\<close>.
\<close>

record (overloaded) ('a::len) DenseData = "'a Range" +
  mData :: "byte list"

datatype error = OutOfBounds

type_synonym view = "byte list"

text \<open>\<^verbatim>\<open>std::vector::resize(n)\<close>: cut to \<open>n\<close> elements or fill up with zero bytes.\<close>

definition resize :: "nat \<Rightarrow> byte list \<Rightarrow> byte list" where
  "resize n xs = take n xs @ replicate (n - length xs) 0"

text \<open>\<^verbatim>\<open>&(v[i])\<close>.\<close>

definition elem_addr :: "byte list \<Rightarrow> nat \<Rightarrow> error + view" where
  "elem_addr v i = (if i < length v then Inr (drop i v) else Inl OutOfBounds)"

text \<open>The constructor \<^verbatim>\<open>DenseData(const Range &range)\<close>.\<close>

definition DenseData_new :: "('a::len) Range \<Rightarrow> 'a DenseData" where
  "DenseData_new rng =
     \<lparr>mStart = mStart rng, mLength = mLength rng, mWholeFile = mWholeFile rng,
      mData = (if Range_length rng \<noteq> 0 then resize (unat (Range_length rng)) [] else [])\<rparr>"

definition data :: "('a::len) DenseData \<Rightarrow> error + view" where
  "data d = elem_addr (mData d) 0"

definition writableData :: "('a::len) DenseData \<Rightarrow> error + view" where
  "writableData d = elem_addr (mData d) 0"

definition DenseData_dataAt :: "('a::len) DenseData \<Rightarrow> 'a word \<Rightarrow> error + view option" where
  "DenseData_dataAt d offset =
     (if offset \<ge> endbyte d \<or> offset < startbyte d then Inr None
      else (case elem_addr (mData d) (unat (offset - startbyte d)) of
              Inl e \<Rightarrow> Inl e
            | Inr p \<Rightarrow> Inr (Some p)))"

definition setLength :: "('a::len) DenseData \<Rightarrow> 'a word \<Rightarrow> bool \<Rightarrow> 'a DenseData" where
  "setLength d len is_npos =
     (Range_setLength d len is_npos)\<lparr>mData := resize (unat len) (mData d)\<rparr>"

subsection \<open>SparseData\<close>

record (overloaded) ('a::len) SparseData =
  mSparseData :: "'a DenseData list"

text \<open>A freshly constructed \<^verbatim>\<open>SparseData\<close> holds the empty list.\<close>

definition SparseData_new :: "('a::len) SparseData" where
  "SparseData_new = \<lparr>mSparseData = []\<rparr>"

text \<open>
  \<^verbatim>\<open>getSpaceUsed\<close>: the loop adds \<^verbatim>\<open>(*iter).length()\<close> to the accumulator
  \<^verbatim>\<open>length\<close>, from the first entry to the last.
\<close>

definition getSpaceUsed :: "('a::len) SparseData \<Rightarrow> 'a word" where
  "getSpaceUsed s = fold (\<lambda>d len. len + Range_length d) (mSparseData s) 0"

text \<open>
  \<^verbatim>\<open>SparseData::dataAt(offset, length)\<close>: the loop over the entries, returning the
  pointer together with the value stored into the reference parameter \<^verbatim>\<open>length\<close>.
\<close>

fun dataAt_loop ::
  "('a::len) DenseData list \<Rightarrow> 'a word \<Rightarrow> error + (view option \<times> 'a word)" where
  "dataAt_loop [] offset = Inr (None, 0)"
| "dataAt_loop (d # ds) offset =
     (if offset \<ge> startbyte d \<and> (goesToEndOfFile d \<or> offset < endbyte d) then
        (case DenseData_dataAt d offset of
           Inl e \<Rightarrow> Inl e
         | Inr p \<Rightarrow> Inr (p, Range_length d + (startbyte d - offset)))
      else if offset < startbyte d then Inr (None, startbyte d - offset)
      else dataAt_loop ds offset)"

definition SparseData_dataAt ::
  "('a::len) SparseData \<Rightarrow> 'a word \<Rightarrow> error + (view option \<times> 'a word)" where
  "SparseData_dataAt s offset = dataAt_loop (mSparseData s) offset"

subsection \<open>Well-formed chunks and the ordering of the entries\<close>

text \<open>
  A chunk is well formed when its end does not wrap around (the spec's
  \<open>start \<le> end\<close>) and its buffer has exactly \<open>length()\<close> bytes, which the
  constructor and \<^verbatim>\<open>setLength\<close> establish.
\<close>

definition valid_chunk :: "('a::len) DenseData \<Rightarrow> bool" where
  "valid_chunk d = (startbyte d \<le> endbyte d \<and> length (mData d) = unat (Range_length d))"

text \<open>
  \<open>before a b\<close>: the entry \<open>a\<close> is bounded and ends strictly before \<open>b\<close> starts, so
  that the two neither overlap nor touch.
\<close>

definition before :: "('a::len) DenseData \<Rightarrow> 'a DenseData \<Rightarrow> bool" where
  "before a b = (\<not> goesToEndOfFile a \<and> endbyte a < startbyte b)"

text \<open>
  The invariant of the entry list: every entry is well formed, and every entry lies
  \<open>before\<close> every later one (ascending, pairwise non-overlapping, nowhere touching;
  an unbounded entry can only be the last one).
\<close>

definition sparse_inv :: "('a::len) DenseData list \<Rightarrow> bool" where
  "sparse_inv xs = (list_all valid_chunk xs \<and> sorted_wrt before xs)"

text \<open>
  A bounded chunk \<open>[s, s + n)\<close> filled with the byte \<open>b\<close>: what the constructor
  gives for the range, after \<open>b\<close> has been written to every byte through
  \<^verbatim>\<open>writableData()\<close>.
\<close>

definition filled :: "('a::len) word \<Rightarrow> 'a word \<Rightarrow> byte \<Rightarrow> 'a DenseData" where
  "filled s n b =
     \<lparr>mStart = s, mLength = n, mWholeFile = False, mData = replicate (unat n) b\<rparr>"

subsection \<open>Insertion\<close>

text \<open>
  \<^verbatim>\<open>SparseData::addValidData\<close> hands the chunk to \<^verbatim>\<open>Range::addToList\<close>, which is
  in \<^verbatim>\<open>Range.hpp\<close> and missing. The definitions \<open>byte_at\<close>, \<open>overlay\<close>,
  \<open>coalesce\<close> and \<open>addToList\<close> follow the spec's description of the insertion.
\<close>

text \<open>
  Modelled from the spec: the byte that a chunk stores for the absolute offset \<open>i\<close>
  (missing: part of \<^verbatim>\<open>Range::addToList\<close>), if the offset is inside the buffer.
\<close>

definition byte_at :: "('a::len) DenseData \<Rightarrow> nat \<Rightarrow> byte option" where
  "byte_at d i =
     (if unat (startbyte d) \<le> i \<and> i < unat (startbyte d) + length (mData d)
      then Some (mData d ! (i - unat (startbyte d))) else None)"

text \<open>
  Modelled from the spec: the byte of the merged buffer at offset \<open>i\<close> (missing: part
  of \<^verbatim>\<open>Range::addToList\<close>). "The newly-inserted chunk's bytes take precedence over the
  previously stored bytes in the overlapping region; non-overlapping bytes from the old
  chunk are retained." An offset that neither buffer holds, which can only happen next
  to an unbounded chunk whose bytes are not all materialised, gets the zero byte that
  \<^verbatim>\<open>resize\<close> would put there.
\<close>

definition overlay :: "('a::len) DenseData \<Rightarrow> 'a DenseData \<Rightarrow> nat \<Rightarrow> byte" where
  "overlay new old i =
     (case byte_at new i of
        Some b \<Rightarrow> b
      | None \<Rightarrow> (case byte_at old i of Some b \<Rightarrow> b | None \<Rightarrow> 0))"

text \<open>
  Modelled from the spec: the single chunk that replaces a new chunk and an entry it
  overlaps or touches (missing: part of \<^verbatim>\<open>Range::addToList\<close>), "spanning the union
  interval", with the bytes in offset order; it is unbounded when one of the two is.
\<close>

definition coalesce :: "('a::len) DenseData \<Rightarrow> 'a DenseData \<Rightarrow> 'a DenseData" where
  "coalesce new old =
     (let lo = min (startbyte new) (startbyte old);
          hi = max (endbyte new) (endbyte old)
      in \<lparr>mStart = lo, mLength = hi - lo,
          mWholeFile = (goesToEndOfFile new \<or> goesToEndOfFile old),
          mData = map (overlay new old) [unat lo ..< unat hi]\<rparr>)"

text \<open>
  Modelled from the spec: \<^verbatim>\<open>Range::addToList(data, list)\<close> (missing). The entries are
  passed in order: an entry that ends strictly before the chunk stays in front of it;
  when the chunk ends strictly before an entry it is inserted there; an entry that
  overlaps or touches the chunk is merged into it, and the merged chunk goes on, so
  that one insertion can take in several entries. An unbounded range extends to the end
  of the resource, so nothing lies strictly behind it.
\<close>

fun addToList :: "('a::len) DenseData \<Rightarrow> 'a DenseData list \<Rightarrow> 'a DenseData list" where
  "addToList d [] = [d]"
| "addToList d (e # es) =
     (if before e d then e # addToList d es
      else if before d e then d # e # es
      else addToList (coalesce d e) es)"

text \<open>\<^verbatim>\<open>addValidData\<close>: \<^verbatim>\<open>data->addToList(data, *this)\<close>.\<close>

definition addValidData :: "('a::len) SparseData \<Rightarrow> 'a DenseData \<Rightarrow> 'a SparseData" where
  "addValidData s d = s\<lparr>mSparseData := addToList d (mSparseData s)\<rparr>"

text \<open>
  \<open>absorbs m d\<close>: the chunk \<open>m\<close> spans \<open>d\<close> and stores the bytes of \<open>d\<close> at the
  offsets of \<open>d\<close>.
\<close>

definition absorbs :: "('a::len) DenseData \<Rightarrow> 'a DenseData \<Rightarrow> bool" where
  "absorbs m d =
     (valid_chunk m \<and> valid_chunk d \<and> startbyte m \<le> startbyte d \<and> endbyte d \<le> endbyte m
      \<and> (goesToEndOfFile d \<longrightarrow> goesToEndOfFile m)
      \<and> (\<forall>i b. byte_at d i = Some b \<longrightarrow> byte_at m i = Some b))"


section \<open>Properties\<close>

subsection \<open>Word arithmetic inside a range\<close>

lemma word_sub_less_len:
  fixes s l off :: "'a::len word"
  assumes "s \<le> off" "off < s + l"
  shows "unat (off - s) < unat l" and "s \<le> s + l"
    and "unat (s + l - off) = unat l - unat (off - s)"
proof -
  from assms have le: "s \<le> s + l" by simp
  then have e: "unat (s + l) = unat s + unat l" by (simp add: unat_plus_simple)
  from assms(1) have d: "unat (off - s) = unat off - unat s" by (rule unat_sub)
  from assms have o: "unat s \<le> unat off" "unat off < unat s + unat l"
    by (simp_all add: word_le_nat_alt word_less_nat_alt e)
  show "unat (off - s) < unat l" using d o by simp
  show "s \<le> s + l" by (rule le)
  have "off \<le> s + l" using assms(2) by simp
  then have "unat (s + l - off) = unat (s + l) - unat off" by (rule unat_sub)
  then show "unat (s + l - off) = unat l - unat (off - s)" using d e o by simp
qed

subsection \<open>The accessor of a chunk\<close>

lemma DenseData_dataAt_eq:
  assumes "length (mData d) = unat (Range_length d)"
  shows "DenseData_dataAt d off =
     (if startbyte d \<le> off \<and> off < endbyte d
      then Inr (Some (drop (unat (off - startbyte d)) (mData d))) else Inr None)"
proof (cases "startbyte d \<le> off \<and> off < endbyte d")
  case True
  then have "unat (off - mStart d) < unat (mLength d)"
    using word_sub_less_len(1)[of "mStart d" off "mLength d"]
    by (simp add: startbyte_def endbyte_def)
  with True assms show ?thesis
    by (simp add: DenseData_dataAt_def elem_addr_def Range_length_def startbyte_def
        endbyte_def not_le[symmetric])
next
  case False
  then show ?thesis by (auto simp add: DenseData_dataAt_def not_le not_less)
qed

lemma valid_chunk_DenseData_new:
  "mStart r \<le> mStart r + mLength r \<Longrightarrow> valid_chunk (DenseData_new r)"
  by (simp add: valid_chunk_def DenseData_new_def resize_def startbyte_def endbyte_def
      Range_length_def unat_eq_0)

lemma length_mData_setLength:
  "length (mData (setLength d len f)) = unat (Range_length (setLength d len f))"
  by (simp add: setLength_def Range_setLength_def resize_def Range_length_def)

subsection \<open>The query loop\<close>

lemma sparse_inv_Cons:
  "sparse_inv (x # xs) = (valid_chunk x \<and> (\<forall>y\<in>set xs. before x y) \<and> sparse_inv xs)"
  by (auto simp add: sparse_inv_def)

text \<open>A bounded entry that ends at or before the offset is passed over.\<close>

lemma dataAt_loop_skip:
  assumes "startbyte d \<le> endbyte d" "\<not> goesToEndOfFile d" "endbyte d \<le> off"
  shows "dataAt_loop (d # ds) off = dataAt_loop ds off"
proof -
  from assms have a: "startbyte d \<le> off" by simp
  from assms have b: "\<not> off < endbyte d" by simp
  from a have c: "\<not> off < startbyte d" by simp
  from a b c assms(2) show ?thesis by simp
qed

lemma dataAt_loop_inside:
  assumes "sparse_inv xs" "e \<in> set xs" "startbyte e \<le> off" "off < endbyte e"
  shows "dataAt_loop xs off =
    Inr (Some (drop (unat (off - startbyte e)) (mData e)), endbyte e - off)"
  using assms
proof (induction xs)
  case Nil
  then show ?case by simp
next
  case (Cons x xs)
  show ?case
  proof (cases "e = x")
    case True
    from Cons.prems have v: "length (mData x) = unat (Range_length x)"
      by (simp add: sparse_inv_Cons valid_chunk_def)
    have "endbyte x - off = Range_length x + (startbyte x - off)"
      by (simp add: endbyte_def Range_length_def startbyte_def)
    with Cons.prems True show ?thesis
      by (simp add: DenseData_dataAt_eq[OF v])
  next
    case False
    with Cons.prems have mem: "e \<in> set xs" by simp
    with Cons.prems have b: "before x e" and vx: "valid_chunk x" and inv: "sparse_inv xs"
      by (simp_all add: sparse_inv_Cons)
    from b have "endbyte x < startbyte e" by (simp add: before_def)
    with Cons.prems(3) have "endbyte x \<le> off" by simp
    with b vx have "dataAt_loop (x # xs) off = dataAt_loop xs off"
      by (intro dataAt_loop_skip) (simp_all add: before_def valid_chunk_def)
    with Cons.IH[OF inv mem] Cons.prems show ?thesis by simp
  qed
qed

lemma dataAt_loop_gap:
  assumes "sparse_inv (pre @ e # post)" "\<forall>x\<in>set pre. endbyte x \<le> off"
    "off < startbyte e"
  shows "dataAt_loop (pre @ e # post) off = Inr (None, startbyte e - off)"
  using assms
proof (induction pre)
  case Nil
  then have "\<not> startbyte e \<le> off" by simp
  with Nil show ?case by simp
next
  case (Cons x pre)
  then have b: "before x e" and vx: "valid_chunk x" and inv: "sparse_inv (pre @ e # post)"
    by (simp_all add: sparse_inv_Cons)
  from Cons.prems have "endbyte x \<le> off" by simp
  with b vx have "dataAt_loop (x # pre @ e # post) off = dataAt_loop (pre @ e # post) off"
    by (intro dataAt_loop_skip) (simp_all add: before_def valid_chunk_def)
  with Cons.IH[OF inv] Cons.prems show ?case by simp
qed

lemma dataAt_loop_past:
  assumes "\<forall>x\<in>set xs. startbyte x \<le> endbyte x \<and> \<not> goesToEndOfFile x \<and> endbyte x \<le> off"
  shows "dataAt_loop xs off = Inr (None, 0)"
  using assms
proof (induction xs)
  case Nil
  then show ?case by simp
next
  case (Cons x xs)
  then have "dataAt_loop (x # xs) off = dataAt_loop xs off"
    by (intro dataAt_loop_skip) simp_all
  with Cons show ?case by simp
qed

text \<open>
  An unbounded entry answers every offset at or behind its start. Inside the
  materialised bytes the run length is what is left of them; behind them the pointer
  is \<^verbatim>\<open>NULL\<close> and the run length \<open>length + (start - offset)\<close> has wrapped around.
\<close>

lemma dataAt_loop_unbounded:
  assumes "sparse_inv xs" "e \<in> set xs" "goesToEndOfFile e" "startbyte e \<le> off"
  shows "dataAt_loop xs off =
    Inr (if off < endbyte e then Some (drop (unat (off - startbyte e)) (mData e)) else None,
         Range_length e + (startbyte e - off))"
  using assms
proof (induction xs)
  case Nil
  then show ?case by simp
next
  case (Cons x xs)
  show ?case
  proof (cases "e = x")
    case True
    from Cons.prems have v: "length (mData x) = unat (Range_length x)"
      by (simp add: sparse_inv_Cons valid_chunk_def)
    from Cons.prems True show ?thesis
      by (simp add: DenseData_dataAt_eq[OF v])
  next
    case False
    with Cons.prems have mem: "e \<in> set xs" by simp
    with Cons.prems have b: "before x e" and vx: "valid_chunk x" and inv: "sparse_inv xs"
      by (simp_all add: sparse_inv_Cons)
    from b have "endbyte x < startbyte e" by (simp add: before_def)
    with Cons.prems(4) have "endbyte x \<le> off" by simp
    with b vx have "dataAt_loop (x # xs) off = dataAt_loop xs off"
      by (intro dataAt_loop_skip) (simp_all add: before_def valid_chunk_def)
    with Cons.IH[OF inv mem] Cons.prems show ?thesis by simp
  qed
qed

lemma unbounded_run_wraps:
  fixes e :: "('a::len) DenseData"
  assumes "endbyte e < off"
  shows "unat (Range_length e + (startbyte e - off)) = 2 ^ LENGTH('a) - unat (off - endbyte e)"
    and "Range_length e + (startbyte e - off) \<noteq> 0"
proof -
  have eq: "Range_length e + (startbyte e - off) = - (off - endbyte e)"
    by (simp add: Range_length_def startbyte_def endbyte_def)
  from assms have nz: "off - endbyte e \<noteq> 0" by auto
  then show "Range_length e + (startbyte e - off) \<noteq> 0" by (simp add: eq)
  from nz have "unat (off - endbyte e) \<noteq> 0" by (simp add: unat_eq_0)
  then have "unat (0 - (off - endbyte e)) = 2 ^ LENGTH('a) - unat (off - endbyte e)"
    by (simp only: unat_sub_if_size[of 0 "off - endbyte e"] word_size) simp
  then show "unat (Range_length e + (startbyte e - off)) = 2 ^ LENGTH('a) - unat (off - endbyte e)"
    by (simp add: eq)
qed

lemma fold_add_length:
  "fold (\<lambda>d len. len + Range_length d) xs (acc :: 'a::len word) =
     acc + sum_list (map Range_length xs)"
  by (induction xs arbitrary: acc) (simp_all add: add.assoc)

lemmas chunk_simps =
  filled_def startbyte_def endbyte_def goesToEndOfFile_def Range_length_def
  valid_chunk_def before_def

subsection \<open>The merged chunk\<close>

lemma unat_min: "unat (min a b) = min (unat a) (unat b)"
  by (simp add: min_def word_le_nat_alt)
lemma unat_max: "unat (max a b) = max (unat a) (unat b)"
  by (simp add: max_def word_le_nat_alt)

lemma startbyte_coalesce [simp]:
  "startbyte (coalesce n old) = min (startbyte n) (startbyte old)"
  by (simp add: coalesce_def Let_def startbyte_def)
lemma eof_coalesce [simp]:
  "goesToEndOfFile (coalesce n old) = (goesToEndOfFile n \<or> goesToEndOfFile old)"
  by (simp add: coalesce_def Let_def goesToEndOfFile_def)
lemma endbyte_coalesce [simp]:
  "endbyte (coalesce n old) = max (endbyte n) (endbyte old)"
  by (simp add: coalesce_def Let_def endbyte_def startbyte_def)
lemma length_coalesce [simp]:
  "Range_length (coalesce n old) =
     max (endbyte n) (endbyte old) - min (startbyte n) (startbyte old)"
  by (simp add: coalesce_def Let_def Range_length_def)
lemma mData_coalesce:
  "mData (coalesce n old) =
     map (overlay n old)
       [unat (min (startbyte n) (startbyte old)) ..< unat (max (endbyte n) (endbyte old))]"
  by (simp add: coalesce_def Let_def)

lemma coalesce_lo_le_hi:
  assumes "valid_chunk n"
  shows "min (startbyte n) (startbyte old) \<le> max (endbyte n) (endbyte old)"
proof -
  have "min (startbyte n) (startbyte old) \<le> startbyte n" by simp
  also have "\<dots> \<le> endbyte n" using assms by (simp add: valid_chunk_def)
  also have "\<dots> \<le> max (endbyte n) (endbyte old)" by simp
  finally show ?thesis .
qed

lemma valid_chunk_coalesce:
  assumes "valid_chunk n"
  shows "valid_chunk (coalesce n old)"
proof -
  note le = coalesce_lo_le_hi[OF assms, of old]
  have "length (mData (coalesce n old)) = unat (Range_length (coalesce n old))"
    using le by (simp add: mData_coalesce unat_sub)
  with le show ?thesis by (simp add: valid_chunk_def)
qed

subsection \<open>Insertion keeps the invariant\<close>

lemma before_trans:
  assumes "before a b" "valid_chunk b" "before b c"
  shows "before a c"
proof -
  from assms have "endbyte a < startbyte b" "startbyte b \<le> endbyte b" "endbyte b < startbyte c"
    by (simp_all add: before_def valid_chunk_def)
  then have "endbyte a < startbyte c" by simp
  with assms(1) show ?thesis by (simp add: before_def)
qed

lemma before_coalesce:
  assumes "before a d" "before a e"
  shows "before a (coalesce d e)"
  using assms by (simp add: before_def)

lemma addToList_lower:
  assumes "before a d" "\<forall>x\<in>set xs. before a x"
  shows "\<forall>y\<in>set (addToList d xs). before a y"
  using assms
proof (induction xs arbitrary: d)
  case Nil
  then show ?case by simp
next
  case (Cons e es)
  show ?case
  proof (cases "before e d")
    case True
    with Cons show ?thesis by simp
  next
    case nb: False
    show ?thesis
    proof (cases "before d e")
      case True
      with nb Cons.prems show ?thesis by simp
    next
      case False
      from Cons.prems have "before a (coalesce d e)" by (simp add: before_coalesce)
      with Cons.IH[of "coalesce d e"] Cons.prems
      have "\<forall>y\<in>set (addToList (coalesce d e) es). before a y"
        by simp
      with nb False show ?thesis by simp
    qed
  qed
qed

lemma sparse_inv_addToList:
  assumes "valid_chunk d" "sparse_inv xs"
  shows "sparse_inv (addToList d xs)"
  using assms
proof (induction xs arbitrary: d)
  case Nil
  then show ?case by (simp add: sparse_inv_def)
next
  case (Cons e es)
  from Cons.prems have ve: "valid_chunk e" and le: "\<forall>y\<in>set es. before e y"
    and inv: "sparse_inv es"
    by (simp_all add: sparse_inv_Cons)
  show ?case
  proof (cases "before e d")
    case True
    from addToList_lower[OF True le] Cons.IH[OF Cons.prems(1) inv] ve True
    show ?thesis by (simp add: sparse_inv_Cons)
  next
    case nb: False
    show ?thesis
    proof (cases "before d e")
      case True
      with le ve have "\<forall>y\<in>set es. before d y" by (blast intro: before_trans)
      with True nb Cons.prems show ?thesis by (simp add: sparse_inv_Cons)
    next
      case False
      from Cons.IH[OF valid_chunk_coalesce[OF Cons.prems(1)] inv] nb False
      show ?thesis by simp
    qed
  qed
qed

lemma sparse_inv_foldl:
  assumes "\<forall>d\<in>set ds. valid_chunk d" "sparse_inv (mSparseData s)"
  shows "sparse_inv (mSparseData (foldl addValidData s ds))"
  using assms
proof (induction ds arbitrary: s)
  case Nil
  then show ?case by simp
next
  case (Cons d ds)
  then have "sparse_inv (mSparseData (addValidData s d))"
    by (simp add: addValidData_def sparse_inv_addToList)
  with Cons show ?case by simp
qed

lemma sparse_inv_starts:
  assumes "sparse_inv xs"
  shows "sorted_wrt (\<lambda>a b. startbyte a < startbyte b) xs"
  using assms
proof (induction xs)
  case Nil
  then show ?case by simp
next
  case (Cons x xs)
  then have v: "startbyte x \<le> endbyte x" and b: "\<forall>y\<in>set xs. endbyte x < startbyte y"
    by (simp_all add: sparse_inv_Cons valid_chunk_def before_def)
  then have "\<forall>y\<in>set xs. startbyte x < startbyte y" by auto
  with Cons show ?case by (simp add: sparse_inv_Cons)
qed

subsection \<open>Bytes of the merged chunk\<close>

lemma valid_chunk_end:
  assumes "valid_chunk d"
  shows "unat (endbyte d) = unat (startbyte d) + length (mData d)"
  using assms
  by (simp add: valid_chunk_def endbyte_def startbyte_def Range_length_def unat_plus_simple)

lemma byte_at_valid:
  assumes "valid_chunk d"
  shows "byte_at d i =
     (if unat (startbyte d) \<le> i \<and> i < unat (endbyte d)
      then Some (mData d ! (i - unat (startbyte d))) else None)"
  using valid_chunk_end[OF assms] by (simp add: byte_at_def)

lemma byte_at_coalesce:
  assumes "valid_chunk n"
  shows "byte_at (coalesce n old) i =
     (if min (unat (startbyte n)) (unat (startbyte old)) \<le> i
         \<and> i < max (unat (endbyte n)) (unat (endbyte old))
      then Some (overlay n old i) else None)"
proof -
  let ?lo = "min (startbyte n) (startbyte old)"
  let ?hi = "max (endbyte n) (endbyte old)"
  have le: "unat ?lo \<le> unat ?hi"
    using coalesce_lo_le_hi[OF assms, of old] by (simp add: word_le_nat_alt)
  show ?thesis
  proof (cases "unat ?lo \<le> i \<and> i < unat ?hi")
    case True
    then have "i - unat ?lo < unat ?hi - unat ?lo" by arith
    then have "map (overlay n old) [unat ?lo ..< unat ?hi] ! (i - unat ?lo) = overlay n old i"
      using True by simp
    with True le show ?thesis
      by (simp add: byte_at_def mData_coalesce unat_min unat_max)
  next
    case False
    with le show ?thesis
      by (auto simp add: byte_at_def mData_coalesce unat_min unat_max)
  qed
qed

lemma absorbs_refl: "valid_chunk d \<Longrightarrow> absorbs d d"
  by (simp add: absorbs_def)

lemma absorbs_coalesce:
  assumes "absorbs m d"
  shows "absorbs (coalesce m e) d"
proof -
  from assms have vm: "valid_chunk m" and vd: "valid_chunk d" by (simp_all add: absorbs_def)
  have "byte_at (coalesce m e) i = Some b" if "byte_at d i = Some b" for i b
  proof -
    from that assms have mb: "byte_at m i = Some b" by (simp add: absorbs_def)
    then have "unat (startbyte m) \<le> i \<and> i < unat (endbyte m)"
      by (simp add: byte_at_valid[OF vm] split: if_splits)
    then have "min (unat (startbyte m)) (unat (startbyte e)) \<le> i
        \<and> i < max (unat (endbyte m)) (unat (endbyte e))"
      by (simp add: min_le_iff_disj less_max_iff_disj)
    with mb show ?thesis by (simp add: byte_at_coalesce[OF vm] overlay_def)
  qed
  moreover have "min (startbyte m) (startbyte e) \<le> startbyte d"
    using assms by (simp add: absorbs_def min_le_iff_disj)
  moreover have "endbyte d \<le> max (endbyte m) (endbyte e)"
    using assms by (simp add: absorbs_def le_max_iff_disj)
  ultimately show ?thesis
    using assms valid_chunk_coalesce[OF vm, of e] by (simp add: absorbs_def)
qed

lemma coalesce_absorbed:
  assumes "absorbs m d"
  shows "coalesce d m = m"
proof -
  from assms have vm: "valid_chunk m" and vd: "valid_chunk d"
    and s: "startbyte m \<le> startbyte d" and e: "endbyte d \<le> endbyte m"
    and f: "goesToEndOfFile d \<longrightarrow> goesToEndOfFile m"
    and b: "\<And>i b. byte_at d i = Some b \<Longrightarrow> byte_at m i = Some b"
    by (simp_all add: absorbs_def)
  from s have lo: "min (startbyte d) (startbyte m) = startbyte m" by (simp add: min_def)
  from e have hi: "max (endbyte d) (endbyte m) = endbyte m" by (simp add: max_def)
  have len: "unat (endbyte m) - unat (startbyte m) = length (mData m)"
    using valid_chunk_end[OF vm] by simp
  have "map (overlay d m) [unat (startbyte m) ..< unat (endbyte m)] = mData m"
  proof (rule nth_equalityI)
    show "length (map (overlay d m) [unat (startbyte m) ..< unat (endbyte m)]) = length (mData m)"
      using len by simp
  next
    fix k assume "k < length (map (overlay d m) [unat (startbyte m) ..< unat (endbyte m)])"
    then have k: "k < length (mData m)" using len by simp
    let ?i = "unat (startbyte m) + k"
    from k have bm: "byte_at m ?i = Some (mData m ! k)" by (simp add: byte_at_def)
    have "overlay d m ?i = mData m ! k"
    proof (cases "byte_at d ?i")
      case None
      with bm show ?thesis by (simp add: overlay_def)
    next
      case (Some x)
      with b[OF Some] bm show ?thesis by (simp add: overlay_def)
    qed
    with k len show "map (overlay d m) [unat (startbyte m) ..< unat (endbyte m)] ! k = mData m ! k"
      by simp
  qed
  moreover have "endbyte m - startbyte m = mLength m" by (simp add: endbyte_def startbyte_def)
  ultimately have "coalesce d m =
      \<lparr>mStart = mStart m, mLength = mLength m, mWholeFile = mWholeFile m, mData = mData m\<rparr>"
    using lo hi f by (auto simp add: coalesce_def Let_def goesToEndOfFile_def startbyte_def)
  then show ?thesis by simp
qed

lemma addToList_absorbed:
  assumes "absorbs m d"
  shows "addToList d (addToList m xs) = addToList m xs"
  using assms
proof (induction xs arbitrary: m)
  case Nil
  then have s: "startbyte m \<le> startbyte d" "endbyte d \<le> endbyte m" "startbyte d \<le> endbyte d"
    by (simp_all add: absorbs_def valid_chunk_def)
  then have "\<not> endbyte m < startbyte d" "\<not> endbyte d < startbyte m" by auto
  then have "\<not> before m d" "\<not> before d m" by (simp_all add: before_def)
  with coalesce_absorbed[OF Nil] show ?case by simp
next
  case (Cons e es)
  then have s: "startbyte m \<le> startbyte d" "endbyte d \<le> endbyte m" "startbyte d \<le> endbyte d"
    by (simp_all add: absorbs_def valid_chunk_def)
  then have "\<not> endbyte m < startbyte d" "\<not> endbyte d < startbyte m" by auto
  then have nb: "\<not> before m d" "\<not> before d m" by (simp_all add: before_def)
  show ?case
  proof (cases "before e m")
    case True
    with s have "before e d" by (auto simp add: before_def)
    with True Cons.IH[OF Cons.prems] show ?thesis by simp
  next
    case nbe: False
    show ?thesis
    proof (cases "before m e")
      case True
      with nbe nb coalesce_absorbed[OF Cons.prems] show ?thesis by simp
    next
      case False
      with nbe Cons.IH[OF absorbs_coalesce[OF Cons.prems]] show ?thesis by simp
    qed
  qed
qed

lemma addToList_idem:
  assumes "valid_chunk d"
  shows "addToList d (addToList d xs) = addToList d xs"
  by (rule addToList_absorbed[OF absorbs_refl[OF assms]])

subsection \<open>Bytes of the set after an insertion\<close>

text \<open>What a non-null answer of the query loop is.\<close>

lemma dataAt_loop_SomeD:
  assumes "list_all valid_chunk xs" "dataAt_loop xs off = Inr (Some v, n)"
  shows "\<exists>e\<in>set xs. startbyte e \<le> off \<and> off < endbyte e
           \<and> v = drop (unat (off - startbyte e)) (mData e)"
  using assms
proof (induction xs)
  case Nil
  then show ?case by simp
next
  case (Cons x xs)
  from Cons.prems have v: "length (mData x) = unat (Range_length x)"
    by (simp add: valid_chunk_def)
  show ?case
  proof (cases "off \<ge> startbyte x \<and> (goesToEndOfFile x \<or> off < endbyte x)")
    case True
    with Cons.prems(2) show ?thesis
      by (auto simp add: DenseData_dataAt_eq[OF v] split: if_splits)
  next
    case False
    with Cons.prems have "dataAt_loop xs off = Inr (Some v, n)"
      by (auto split: if_splits)
    with Cons.IH Cons.prems(1) show ?thesis by auto
  qed
qed

text \<open>The byte of a chunk at an offset inside it, through the view.\<close>

lemma byte_at_word:
  assumes "valid_chunk d" "startbyte d \<le> off" "off < endbyte d"
  shows "byte_at d (unat off) = Some (mData d ! unat (off - startbyte d))"
    and "drop (unat (off - startbyte d)) (mData d) \<noteq> []"
    and "hd (drop (unat (off - startbyte d)) (mData d)) = mData d ! unat (off - startbyte d)"
proof -
  from assms(2,3) have o: "unat (startbyte d) \<le> unat off" "unat off < unat (endbyte d)"
    by (simp_all add: word_le_nat_alt word_less_nat_alt)
  from assms(2) have s: "unat (off - startbyte d) = unat off - unat (startbyte d)"
    by (rule unat_sub)
  from o show "byte_at d (unat off) = Some (mData d ! unat (off - startbyte d))"
    by (simp add: byte_at_valid[OF assms(1)] s)
  from o valid_chunk_end[OF assms(1)] have l: "unat (off - startbyte d) < length (mData d)"
    by (simp add: s)
  then show "drop (unat (off - startbyte d)) (mData d) \<noteq> []" by simp
  from l show "hd (drop (unat (off - startbyte d)) (mData d)) = mData d ! unat (off - startbyte d)"
    by (simp add: hd_drop_conv_nth)
qed

lemma byte_at_SomeD:
  assumes "valid_chunk d" "byte_at d (unat off) = Some b"
  shows "startbyte d \<le> off \<and> off < endbyte d \<and> mData d ! unat (off - startbyte d) = b"
proof -
  from assms have o: "unat (startbyte d) \<le> unat off" "unat off < unat (endbyte d)"
    and b: "mData d ! (unat off - unat (startbyte d)) = b"
    by (simp_all add: byte_at_valid[OF assms(1)] split: if_splits)
  then have w: "startbyte d \<le> off" "off < endbyte d"
    by (simp_all add: word_le_nat_alt word_less_nat_alt)
  with b unat_sub[OF w(1)] show ?thesis by simp
qed

text \<open>The entry that holds the inserted chunk.\<close>

lemma addToList_absorbs:
  assumes "absorbs m d"
  shows "\<exists>r\<in>set (addToList m xs). absorbs r d"
  using assms
proof (induction xs arbitrary: m)
  case Nil
  then show ?case by simp
next
  case (Cons e es)
  show ?case
  proof (cases "before e m")
    case True
    with Cons.IH[OF Cons.prems] show ?thesis by simp
  next
    case nb: False
    show ?thesis
    proof (cases "before m e")
      case True
      with nb Cons.prems show ?thesis by simp
    next
      case False
      with nb Cons.IH[OF absorbs_coalesce[OF Cons.prems]] show ?thesis by simp
    qed
  qed
qed

lemma addToList_retains:
  assumes "valid_chunk d" "sparse_inv xs" "e \<in> set xs" "byte_at e i = Some b"
    "byte_at d i = None"
  shows "\<exists>r\<in>set (addToList d xs). byte_at r i = Some b"
  using assms
proof (induction xs arbitrary: d)
  case Nil
  then show ?case by simp
next
  case (Cons x xs)
  from Cons.prems have vx: "valid_chunk x" and lx: "\<forall>y\<in>set xs. before x y"
    and inv: "sparse_inv xs" by (simp_all add: sparse_inv_Cons)
  show ?case
  proof (cases "before x d")
    case True
    show ?thesis
    proof (cases "e = x")
      case True
      with Cons.prems \<open>before x d\<close> show ?thesis by simp
    next
      case False
      with Cons.prems have "e \<in> set xs" by simp
      from Cons.IH[OF Cons.prems(1) inv this Cons.prems(4,5)] True show ?thesis by simp
    qed
  next
    case nb: False
    show ?thesis
    proof (cases "before d x")
      case True
      with nb Cons.prems show ?thesis by auto
    next
      case False
      let ?c = "coalesce d x"
      have vc: "valid_chunk ?c" by (rule valid_chunk_coalesce[OF Cons.prems(1)])
      show ?thesis
      proof (cases "e = x")
        case True
        with Cons.prems have xb: "byte_at x i = Some b" by simp
        then have "unat (startbyte x) \<le> i \<and> i < unat (endbyte x)"
          by (simp add: byte_at_valid[OF vx] split: if_splits)
        then have "min (unat (startbyte d)) (unat (startbyte x)) \<le> i
            \<and> i < max (unat (endbyte d)) (unat (endbyte x))"
          by (simp add: min_le_iff_disj less_max_iff_disj)
        with xb Cons.prems(5) have cb: "byte_at ?c i = Some b"
          by (simp add: byte_at_coalesce[OF Cons.prems(1)] overlay_def)
        from addToList_absorbs[OF absorbs_refl[OF vc], of xs]
        obtain r where "r \<in> set (addToList ?c xs)" "absorbs r ?c" by blast
        with cb have "r \<in> set (addToList ?c xs) \<and> byte_at r i = Some b"
          by (simp add: absorbs_def)
        with nb False show ?thesis by auto
      next
        case ne: False
        with Cons.prems have mem: "e \<in> set xs" by simp
        with lx have bxe: "before x e" by simp
        from mem inv have ve: "valid_chunk e" by (simp add: sparse_inv_def list_all_iff)
        from Cons.prems(4) have ei: "unat (startbyte e) \<le> i"
          by (simp add: byte_at_valid[OF ve] split: if_splits)
        from bxe have nx: "\<not> goesToEndOfFile x" and "unat (endbyte x) < unat (startbyte e)"
          by (simp_all add: before_def word_less_nat_alt)
        with ei have xi: "unat (endbyte x) < i" by simp
        from nb nx have "unat (startbyte d) \<le> unat (endbyte x)"
          by (simp add: before_def word_le_nat_alt not_less)
        with xi have "unat (startbyte d) \<le> i" by simp
        with Cons.prems(5) have "unat (endbyte d) \<le> i"
          by (simp add: byte_at_valid[OF Cons.prems(1)] split: if_splits)
        with xi have "\<not> i < max (unat (endbyte d)) (unat (endbyte x))"
          by simp
        then have "byte_at ?c i = None"
          by (simp add: byte_at_coalesce[OF Cons.prems(1)])
        from Cons.IH[OF vc inv mem Cons.prems(4) this] nb False show ?thesis by simp
      qed
    qed
  qed
qed

lemma absorbs_trans:
  assumes "absorbs r c" "absorbs c m"
  shows "absorbs r m"
proof -
  from assms have "startbyte r \<le> startbyte m" "endbyte m \<le> endbyte r"
    by (auto simp add: absorbs_def)
  with assms show ?thesis by (simp add: absorbs_def)
qed

lemma addToList_covers:
  assumes "valid_chunk m" "sparse_inv xs"
  shows "\<exists>r\<in>set (addToList m xs). absorbs r m
           \<and> (\<forall>e\<in>set xs. \<not> before e m \<and> \<not> before m e
                 \<longrightarrow> startbyte r \<le> startbyte e \<and> endbyte e \<le> endbyte r)"
  using assms
proof (induction xs arbitrary: m)
  case Nil
  then show ?case by (simp add: absorbs_refl)
next
  case (Cons x xs)
  from Cons.prems have vx: "valid_chunk x" and lx: "\<forall>y\<in>set xs. before x y"
    and inv: "sparse_inv xs" by (simp_all add: sparse_inv_Cons)
  show ?case
  proof (cases "before x m")
    case True
    with Cons.IH[OF Cons.prems(1) inv] show ?thesis by auto
  next
    case nb: False
    show ?thesis
    proof (cases "before m x")
      case True
      with lx vx have "\<forall>y\<in>set xs. before m y" by (blast intro: before_trans)
      with True nb absorbs_refl[OF Cons.prems(1)] show ?thesis by auto
    next
      case False
      let ?c = "coalesce m x"
      have vc: "valid_chunk ?c" by (rule valid_chunk_coalesce[OF Cons.prems(1)])
      from Cons.IH[OF vc inv] obtain r where r: "r \<in> set (addToList ?c xs)" "absorbs r ?c"
        and cov: "\<forall>e\<in>set xs. \<not> before e ?c \<and> \<not> before ?c e
                 \<longrightarrow> startbyte r \<le> startbyte e \<and> endbyte e \<le> endbyte r"
        by blast
      have cm: "absorbs ?c m" by (rule absorbs_coalesce[OF absorbs_refl[OF Cons.prems(1)]])
      from r(2) have rc: "startbyte r \<le> min (startbyte m) (startbyte x)"
        "max (endbyte m) (endbyte x) \<le> endbyte r"
        by (simp_all add: absorbs_def)
      then have x_in: "startbyte r \<le> startbyte x \<and> endbyte x \<le> endbyte r"
        by simp
      have "startbyte r \<le> startbyte e \<and> endbyte e \<le> endbyte r"
        if "e \<in> set xs" "\<not> before e m" "\<not> before m e" for e
      proof -
        from that(2) have "\<not> before e ?c"
          by (auto simp add: before_def not_less min_le_iff_disj)
        moreover from that(3) have "\<not> before ?c e"
          by (auto simp add: before_def not_less le_max_iff_disj)
        ultimately show ?thesis using cov that(1) by simp
      qed
      with x_in r absorbs_trans[OF r(2) cm] nb False show ?thesis by auto
    qed
  qed
qed

lemma sorted_wrt_cases:
  assumes "sorted_wrt P xs" "a \<in> set xs" "b \<in> set xs"
  shows "a = b \<or> P a b \<or> P b a"
  using assms by (induction xs) auto

lemma addToList_others:
  assumes "sparse_inv ys" "r \<in> set ys" "absorbs r d" "r' \<in> set ys" "r' \<noteq> r"
  shows "before r' d \<or> before d r'"
proof -
  from assms(1,2,4,5) have "before r' r \<or> before r r'"
    using sorted_wrt_cases[of before ys r' r] by (auto simp add: sparse_inv_def)
  then show ?thesis
  proof
    assume "before r' r"
    moreover from assms(3) have "startbyte r \<le> startbyte d" by (simp add: absorbs_def)
    ultimately have "before r' d" by (auto simp add: before_def)
    then show ?thesis ..
  next
    assume "before r r'"
    moreover from assms(3) have "endbyte d \<le> endbyte r"
      "goesToEndOfFile d \<longrightarrow> goesToEndOfFile r"
      by (simp_all add: absorbs_def)
    ultimately have "before d r'" by (auto simp add: before_def)
    then show ?thesis ..
  qed
qed

subsection \<open>Answers of the query after an insertion\<close>

lemma dataAt_loop_byte:
  assumes "sparse_inv ys" "r \<in> set ys" "byte_at r (unat off) = Some b"
  shows "\<exists>v n. dataAt_loop ys off = Inr (Some v, n) \<and> v \<noteq> [] \<and> hd v = b"
proof -
  from assms(1,2) have vr: "valid_chunk r" by (simp add: sparse_inv_def list_all_iff)
  from byte_at_SomeD[OF vr assms(3)]
  have o: "startbyte r \<le> off" "off < endbyte r" and b: "mData r ! unat (off - startbyte r) = b"
    by simp_all
  from dataAt_loop_inside[OF assms(1,2) o] byte_at_word(2,3)[OF vr o] b
  show ?thesis by simp
qed

lemma merge_overlap:
  "map (overlay (filled (5::64 word) 10 b) (filled 0 10 a)) [0..<15]
     = replicate 5 a @ replicate 10 b"
  by (rule nth_equalityI) (auto simp add: overlay_def byte_at_def chunk_simps nth_append)

lemma addValidData_overlap_example:
  "mSparseData (addValidData (addValidData SparseData_new (filled 0 10 a))
       (filled (5::64 word) 10 b))
     = [\<lparr>mStart = 0, mLength = 15, mWholeFile = False,
          mData = replicate 5 a @ replicate 10 b\<rparr>]"
  using merge_overlap[of b a]
  by (simp add: addValidData_def SparseData_new_def coalesce_def Let_def before_def
      startbyte_def endbyte_def goesToEndOfFile_def filled_def)

lemma merge_touching:
  "map (overlay (filled (10::64 word) 10 b) (filled 0 10 a)) [0..<20]
     = replicate 10 a @ replicate 10 b"
  by (rule nth_equalityI) (auto simp add: overlay_def byte_at_def chunk_simps nth_append)

subsection \<open>Claims about the insertion\<close>

text \<open>
  C1. Starting from the empty set, after any sequence of \<^verbatim>\<open>addValidData\<close> calls with
  well-formed chunks every entry is well formed, the entries are strictly ascending by
  start, and every entry is bounded and ends strictly before each later entry starts:
  no two entries overlap and no two touch.
\<close>

theorem addValidData_invariant:
  assumes "\<forall>d\<in>set ds. valid_chunk d"
  shows "list_all valid_chunk (mSparseData (foldl addValidData SparseData_new ds))
       \<and> sorted_wrt (\<lambda>a b. startbyte a < startbyte b)
            (mSparseData (foldl addValidData SparseData_new ds))
       \<and> sorted_wrt before (mSparseData (foldl addValidData SparseData_new ds))"
proof -
  have "sparse_inv (mSparseData (SparseData_new :: 'a SparseData))"
    by (simp add: SparseData_new_def sparse_inv_def)
  with assms have inv: "sparse_inv (mSparseData (foldl addValidData SparseData_new ds))"
    by (rule sparse_inv_foldl)
  from sparse_inv_starts[OF inv] inv show ?thesis
    by (simp add: sparse_inv_def)
qed

theorem addValidData_invariant_witness:
  "mSparseData (foldl addValidData SparseData_new [filled 0 10 65, filled (10 :: 64 word) 10 66])
     = [\<lparr>mStart = 0, mLength = 20, mWholeFile = False,
          mData = replicate 10 65 @ replicate 10 66\<rparr>]
   \<and> sorted_wrt before
        (mSparseData (foldl addValidData SparseData_new [filled 0 10 65, filled (10 :: 64 word) 10 66]))"
proof -
  have v: "\<forall>d\<in>set [filled 0 10 65, filled (10 :: 64 word) 10 66]. valid_chunk d"
    by (simp add: chunk_simps)
  have "mSparseData (foldl addValidData SparseData_new [filled 0 10 65, filled (10 :: 64 word) 10 66])
     = [\<lparr>mStart = 0, mLength = 20, mWholeFile = False,
          mData = replicate 10 65 @ replicate 10 66\<rparr>]"
    using merge_touching[of 66 65]
    by (simp add: addValidData_def SparseData_new_def coalesce_def Let_def before_def startbyte_def endbyte_def goesToEndOfFile_def filled_def)
  with addValidData_invariant[OF v] show ?thesis by simp
qed

text \<open>
  C2. Inserting a well-formed chunk \<open>d\<close> into a set that satisfies the invariant:
  one entry \<open>r\<close> of the result spans \<open>d\<close> and every old entry that \<open>d\<close> overlaps
  or touches, and every other entry is strictly apart from \<open>d\<close>; at an offset inside
  \<open>d\<close> the query returns the byte of \<open>d\<close>; at an offset outside \<open>d\<close> where the
  old set had data the query returns the old byte. After \<open>[0,10)\<close> filled with \<open>a\<close>
  and then \<open>[5,15)\<close> filled with \<open>b\<close>, the set is the single entry \<open>[0,15)\<close>,
  the view at 5 starts with \<open>b\<close> and the view at 0 starts with \<open>a\<close>.
\<close>

theorem addValidData_overlap:
  assumes "sparse_inv (mSparseData s)" "valid_chunk d"
  shows "(\<exists>r\<in>set (mSparseData (addValidData s d)).
            startbyte r \<le> startbyte d \<and> endbyte d \<le> endbyte r
          \<and> (\<forall>e\<in>set (mSparseData s). \<not> before e d \<and> \<not> before d e
                \<longrightarrow> startbyte r \<le> startbyte e \<and> endbyte e \<le> endbyte r)
          \<and> (\<forall>r'\<in>set (mSparseData (addValidData s d)). r' \<noteq> r
                \<longrightarrow> before r' d \<or> before d r'))
       \<and> (startbyte d \<le> off \<and> off < endbyte d \<longrightarrow>
            (\<exists>v n. SparseData_dataAt (addValidData s d) off = Inr (Some v, n)
                  \<and> v \<noteq> [] \<and> hd v = mData d ! unat (off - startbyte d)))
       \<and> (\<not> (startbyte d \<le> off \<and> off < endbyte d)
            \<and> SparseData_dataAt s off = Inr (Some w, k) \<longrightarrow>
            (\<exists>v n. SparseData_dataAt (addValidData s d) off = Inr (Some v, n)
                  \<and> v \<noteq> [] \<and> hd v = hd w))
       \<and> mSparseData (addValidData (addValidData SparseData_new (filled 0 10 a))
             (filled (5 :: 64 word) 10 b))
           = [\<lparr>mStart = 0, mLength = 15, mWholeFile = False,
                mData = replicate 5 a @ replicate 10 b\<rparr>]
       \<and> SparseData_dataAt (addValidData (addValidData SparseData_new (filled 0 10 a))
             (filled (5 :: 64 word) 10 b)) 5 = Inr (Some (replicate 10 b), 10)
       \<and> SparseData_dataAt (addValidData (addValidData SparseData_new (filled 0 10 a))
             (filled (5 :: 64 word) 10 b)) 0 = Inr (Some (replicate 5 a @ replicate 10 b), 15)"
proof -
  let ?xs = "mSparseData s"
  let ?ys = "addToList d ?xs"
  have ys: "mSparseData (addValidData s d) = ?ys" by (simp add: addValidData_def)
  have inv: "sparse_inv ?ys" by (rule sparse_inv_addToList[OF assms(2,1)])
  from addToList_covers[OF assms(2,1)] obtain r where r: "r \<in> set ?ys" "absorbs r d"
    and cov: "\<forall>e\<in>set ?xs. \<not> before e d \<and> \<not> before d e
                \<longrightarrow> startbyte r \<le> startbyte e \<and> endbyte e \<le> endbyte r"
    by blast
  have one: "\<exists>r\<in>set ?ys.
            startbyte r \<le> startbyte d \<and> endbyte d \<le> endbyte r
          \<and> (\<forall>e\<in>set ?xs. \<not> before e d \<and> \<not> before d e
                \<longrightarrow> startbyte r \<le> startbyte e \<and> endbyte e \<le> endbyte r)
          \<and> (\<forall>r'\<in>set ?ys. r' \<noteq> r \<longrightarrow> before r' d \<or> before d r')"
  proof (intro bexI[of _ r] conjI ballI impI)
    from r(2) show "startbyte r \<le> startbyte d" "endbyte d \<le> endbyte r"
      by (simp_all add: absorbs_def)
  next
    fix e assume "e \<in> set ?xs" "\<not> before e d \<and> \<not> before d e"
    with cov show "startbyte r \<le> startbyte e" "endbyte e \<le> endbyte r" by simp_all
  next
    fix r' assume "r' \<in> set ?ys" "r' \<noteq> r"
    with addToList_others[OF inv r] show "before r' d \<or> before d r'" by simp
  qed (rule r(1))
  have new: "\<exists>v n. dataAt_loop ?ys off = Inr (Some v, n)
                  \<and> v \<noteq> [] \<and> hd v = mData d ! unat (off - startbyte d)"
    if o: "startbyte d \<le> off \<and> off < endbyte d"
  proof -
    from o byte_at_word(1)[OF assms(2), of off]
    have "byte_at d (unat off) = Some (mData d ! unat (off - startbyte d))" by simp
    with r(2) have "byte_at r (unat off) = Some (mData d ! unat (off - startbyte d))"
      by (simp add: absorbs_def)
    from dataAt_loop_byte[OF inv r(1) this] show ?thesis .
  qed
  have old: "\<exists>v n. dataAt_loop ?ys off = Inr (Some v, n) \<and> v \<noteq> [] \<and> hd v = hd w"
    if o: "\<not> (startbyte d \<le> off \<and> off < endbyte d)"
      and q: "dataAt_loop ?xs off = Inr (Some w, k)"
  proof -
    from assms(1) have "list_all valid_chunk ?xs" by (simp add: sparse_inv_def)
    from dataAt_loop_SomeD[OF this q] obtain e where e: "e \<in> set ?xs"
      "startbyte e \<le> off" "off < endbyte e" "w = drop (unat (off - startbyte e)) (mData e)"
      by blast
    from e(1) assms(1) have ve: "valid_chunk e" by (simp add: sparse_inv_def list_all_iff)
    from byte_at_word[OF ve e(2,3)] e(4) have eb: "byte_at e (unat off) = Some (hd w)"
      by simp
    from o have "\<not> (unat (startbyte d) \<le> unat off \<and> unat off < unat (endbyte d))"
      by (simp add: word_le_nat_alt word_less_nat_alt)
    then have "byte_at d (unat off) = None" by (simp add: byte_at_valid[OF assms(2)])
    from addToList_retains[OF assms(2,1) e(1) eb this]
    obtain r' where "r' \<in> set ?ys" "byte_at r' (unat off) = Some (hd w)" by blast
    from dataAt_loop_byte[OF inv this] show ?thesis .
  qed
  note ex = addValidData_overlap_example[of a b]
  have s15: "sparse_inv [\<lparr>mStart = 0 :: 64 word, mLength = 15, mWholeFile = False,
                mData = replicate 5 a @ replicate 10 b\<rparr>]"
    by (simp add: sparse_inv_def valid_chunk_def startbyte_def endbyte_def Range_length_def)
  have q5: "SparseData_dataAt (addValidData (addValidData SparseData_new (filled 0 10 a))
             (filled (5 :: 64 word) 10 b)) 5 = Inr (Some (replicate 10 b), 10)"
    by (simp add: SparseData_dataAt_def ex DenseData_dataAt_def elem_addr_def startbyte_def
        endbyte_def goesToEndOfFile_def Range_length_def)
  have q0: "SparseData_dataAt (addValidData (addValidData SparseData_new (filled 0 10 a))
             (filled (5 :: 64 word) 10 b)) 0 = Inr (Some (replicate 5 a @ replicate 10 b), 15)"
    by (simp add: SparseData_dataAt_def ex DenseData_dataAt_def elem_addr_def startbyte_def
        endbyte_def goesToEndOfFile_def Range_length_def)
  from one new old ex q5 q0 show ?thesis
    by (simp only: ys SparseData_dataAt_def) blast
qed

theorem addValidData_overlap_witness:
  "\<exists>v n. SparseData_dataAt
            (addValidData \<lparr>mSparseData = [filled 0 10 65]\<rparr> (filled (5 :: 64 word) 10 66)) 7
          = Inr (Some v, n) \<and> v \<noteq> [] \<and> hd v = 66"
proof -
  have i: "sparse_inv (mSparseData \<lparr>mSparseData = [filled 0 10 65 :: 64 DenseData]\<rparr>)"
    by (simp add: sparse_inv_def chunk_simps)
  have v: "valid_chunk (filled (5 :: 64 word) 10 66)" by (simp add: chunk_simps)
  have o: "startbyte (filled (5 :: 64 word) 10 66) \<le> 7 \<and> 7 < endbyte (filled (5 :: 64 word) 10 66)"
    by (simp add: chunk_simps)
  have "mData (filled (5 :: 64 word) 10 66) ! unat (7 - startbyte (filled (5 :: 64 word) 10 66)) = 66"
    by (simp add: chunk_simps)
  with addValidData_overlap[OF i v, of 7] o show ?thesis by simp
qed

text \<open>
  C7. Inserting a well-formed chunk a second time leaves the set as it is after the
  first insertion: the same entries with the same ranges and bytes, hence the same
  \<^verbatim>\<open>getSpaceUsed\<close> and the same answer of \<^verbatim>\<open>dataAt\<close> at every offset.
\<close>

theorem addValidData_idempotent:
  assumes "valid_chunk d"
  shows "addValidData (addValidData s d) d = addValidData s d
       \<and> getSpaceUsed (addValidData (addValidData s d) d) = getSpaceUsed (addValidData s d)
       \<and> SparseData_dataAt (addValidData (addValidData s d) d) off
           = SparseData_dataAt (addValidData s d) off"
proof -
  have "addValidData (addValidData s d) d = addValidData s d"
    by (simp add: addValidData_def addToList_idem[OF assms])
  then show ?thesis by simp
qed

theorem addValidData_idempotent_witness:
  "addValidData (addValidData \<lparr>mSparseData = [filled 0 10 65]\<rparr> (filled (5 :: 64 word) 10 66))
       (filled 5 10 66)
     = addValidData \<lparr>mSparseData = [filled 0 10 65]\<rparr> (filled 5 10 66)"
proof -
  have v: "valid_chunk (filled (5 :: 64 word) 10 66)" by (simp add: chunk_simps)
  from addValidData_idempotent[OF v, of "\<lparr>mSparseData = [filled 0 10 65]\<rparr>" 0]
  show ?thesis by simp
qed

subsection \<open>Claims about the query\<close>

text \<open>
  C3. In a set that satisfies the ordering invariant, an offset inside the interval
  \<open>[start, end)\<close> of an entry \<open>e\<close> (for an unbounded entry: inside its materialised
  bytes) is answered with a non-null view that starts at the byte for \<open>offset\<close>
  (the buffer of \<open>e\<close> from position \<open>offset - start\<close>) and with the run length
  \<open>end - offset\<close>, which is the number of bytes of that view and is not zero.
\<close>

theorem SparseData_dataAt_inside:
  assumes "sparse_inv (mSparseData s)" "e \<in> set (mSparseData s)"
    "startbyte e \<le> off" "off < endbyte e"
  shows "SparseData_dataAt s off =
           Inr (Some (drop (unat (off - startbyte e)) (mData e)), endbyte e - off)
         \<and> length (drop (unat (off - startbyte e)) (mData e)) = unat (endbyte e - off)
         \<and> 0 < unat (endbyte e - off)"
proof -
  from assms(1,2) have v: "length (mData e) = unat (mLength e)"
    by (auto simp add: sparse_inv_def list_all_iff valid_chunk_def Range_length_def)
  from assms(3,4) have o: "mStart e \<le> off" "off < mStart e + mLength e"
    by (simp_all add: startbyte_def endbyte_def)
  note loop = dataAt_loop_inside[OF assms]
  have "unat (off - mStart e) < unat (mLength e)"
    and "unat (mStart e + mLength e - off) = unat (mLength e) - unat (off - mStart e)"
    using word_sub_less_len(1,3)[OF o] by simp_all
  with v have "length (drop (unat (off - startbyte e)) (mData e)) = unat (endbyte e - off)"
    and "0 < unat (endbyte e - off)"
    by (simp_all add: startbyte_def endbyte_def)
  with loop show ?thesis
    by (simp add: SparseData_dataAt_def)
qed

theorem SparseData_dataAt_inside_witness:
  "SparseData_dataAt \<lparr>mSparseData = [filled 100 50 65]\<rparr> (120 :: 64 word) =
     Inr (Some (replicate 30 65), 30)"
  using SparseData_dataAt_inside[of "\<lparr>mSparseData = [filled 100 50 65]\<rparr>"
      "filled 100 50 65" "120 :: 64 word"]
  by (simp add: sparse_inv_def chunk_simps)

text \<open>
  C4. In a set that satisfies the ordering invariant, an offset that lies before the
  start of an entry \<open>e\<close>, all entries in front of \<open>e\<close> ending at or before the
  offset, is answered with no data and the distance \<open>start - offset\<close> to \<open>e\<close>.
\<close>

theorem SparseData_dataAt_gap:
  assumes "mSparseData s = pre @ e # post" "sparse_inv (mSparseData s)"
    "\<forall>x\<in>set pre. endbyte x \<le> off" "off < startbyte e"
  shows "SparseData_dataAt s off = Inr (None, startbyte e - off)"
  using assms dataAt_loop_gap[of pre e post off]
  by (simp add: SparseData_dataAt_def)

theorem SparseData_dataAt_gap_witness:
  "SparseData_dataAt \<lparr>mSparseData = [filled 100 50 65]\<rparr> (90 :: 64 word) = Inr (None, 10)"
  using SparseData_dataAt_gap[of "\<lparr>mSparseData = [filled 100 50 65]\<rparr>" "[]"
      "filled 100 50 65" "[]" "90 :: 64 word"]
  by (simp add: sparse_inv_def chunk_simps)

text \<open>
  C5. When no entry is unbounded and the offset is at or past the end of every
  (well-formed) entry, the answer is no data with run length 0; on a freshly constructed
  set this is the answer for every offset.
\<close>

theorem SparseData_dataAt_past_end:
  assumes "\<forall>x\<in>set (mSparseData s).
             startbyte x \<le> endbyte x \<and> \<not> goesToEndOfFile x \<and> endbyte x \<le> off"
  shows "SparseData_dataAt s off = Inr (None, 0)
         \<and> SparseData_dataAt SparseData_new off' = Inr (None, 0)"
  using dataAt_loop_past[OF assms]
  by (simp add: SparseData_dataAt_def SparseData_new_def)

theorem SparseData_dataAt_past_end_witness:
  "SparseData_dataAt \<lparr>mSparseData = [filled 0 10 65, filled 20 10 66]\<rparr> (30 :: 64 word)
     = Inr (None, 0)"
  using SparseData_dataAt_past_end[of "\<lparr>mSparseData = [filled 0 10 65, filled 20 10 66]\<rparr>"
      "30 :: 64 word" "0 :: 64 word"]
  by (simp add: chunk_simps)

text \<open>
  C8. An unbounded entry whose buffer holds 10 bytes from offset 0, queried at the
  offset 11 behind the materialised bytes: the call returns \<^verbatim>\<open>NULL\<close> and the run
  length \<open>10 + (0 - 11)\<close>, which wraps around to \<open>2^64 - 1\<close> for a 64-bit offset type.
\<close>

theorem SparseData_dataAt_unbounded_past_buffer:
  "SparseData_dataAt
     \<lparr>mSparseData =
        [setLength (DenseData_new \<lparr>mStart = 0, mLength = 0, mWholeFile = True\<rparr>) 10 True]\<rparr>
     (11 :: 64 word) = Inr (None, 18446744073709551615)"
  by (simp add: SparseData_dataAt_def DenseData_dataAt_def startbyte_def endbyte_def
      goesToEndOfFile_def Range_length_def setLength_def DenseData_new_def
      Range_setLength_def resize_def)

subsection \<open>Claims about a chunk\<close>

text \<open>
  C9. For a chunk whose buffer has \<open>length()\<close> bytes, \<^verbatim>\<open>DenseData::dataAt(offset)\<close>
  returns the view of the buffer at position \<open>offset - start\<close> exactly when
  \<open>start \<le> offset < end\<close>, and \<^verbatim>\<open>NULL\<close> otherwise; it never indexes outside the
  buffer.
\<close>

theorem DenseData_dataAt_iff:
  assumes "length (mData d) = unat (Range_length d)"
  shows "DenseData_dataAt d off =
     (if startbyte d \<le> off \<and> off < endbyte d
      then Inr (Some (drop (unat (off - startbyte d)) (mData d))) else Inr None)"
  using assms by (rule DenseData_dataAt_eq)

theorem DenseData_dataAt_iff_witness:
  "DenseData_dataAt (filled 100 50 65) (120 :: 64 word) = Inr (Some (replicate 30 65))
   \<and> DenseData_dataAt (filled 100 50 65) (150 :: 64 word) = Inr None
   \<and> DenseData_dataAt (filled 100 50 65) (99 :: 64 word) = Inr None"
  using DenseData_dataAt_iff[of "filled 100 50 65" "120 :: 64 word"]
    DenseData_dataAt_iff[of "filled 100 50 65" "150 :: 64 word"]
    DenseData_dataAt_iff[of "filled 100 50 65" "99 :: 64 word"]
  by (simp add: chunk_simps)

text \<open>
  C10. For a range of length 0 the constructor leaves the buffer empty; \<^verbatim>\<open>data()\<close>
  and \<^verbatim>\<open>writableData()\<close> then index element 0 of an empty vector (the error branch),
  while \<^verbatim>\<open>DenseData::dataAt\<close> returns \<^verbatim>\<open>NULL\<close> for every offset.
\<close>

theorem DenseData_zero_length:
  assumes "Range_length r = 0"
  shows "mData (DenseData_new r) = []
         \<and> data (DenseData_new r) = Inl OutOfBounds
         \<and> writableData (DenseData_new r) = Inl OutOfBounds
         \<and> DenseData_dataAt (DenseData_new r) off = Inr None"
proof -
  from assms have e: "endbyte (DenseData_new r) = startbyte (DenseData_new r)"
    by (simp add: DenseData_new_def endbyte_def startbyte_def Range_length_def)
  have "off \<ge> startbyte (DenseData_new r) \<or> off < startbyte (DenseData_new r)"
    by auto
  with e have "DenseData_dataAt (DenseData_new r) off = Inr None"
    by (simp add: DenseData_dataAt_def)
  with assms show ?thesis
    by (simp add: DenseData_new_def data_def writableData_def elem_addr_def)
qed

theorem DenseData_zero_length_witness:
  "data (DenseData_new \<lparr>mStart = 7 :: 64 word, mLength = 0, mWholeFile = False\<rparr>)
     = Inl OutOfBounds
   \<and> DenseData_dataAt (DenseData_new \<lparr>mStart = 7 :: 64 word, mLength = 0, mWholeFile = False\<rparr>) 7
     = Inr None"
  using DenseData_zero_length[of "\<lparr>mStart = 7 :: 64 word, mLength = 0, mWholeFile = False\<rparr>" 7]
  by (simp add: Range_length_def)

subsection \<open>Accounting\<close>

text \<open>
  C6 (as the code has it). \<^verbatim>\<open>getSpaceUsed\<close> is the sum of \<open>length()\<close> over all
  entries, in the arithmetic of \<^verbatim>\<open>cache_usize_type\<close>. On the set with the entries
  \<open>[0,10)\<close> and \<open>[20,30)\<close> it is 20; on the set whose single entry is \<open>[0,30)\<close>
  it is 30.
\<close>

theorem getSpaceUsed_sum:
  "getSpaceUsed s = sum_list (map Range_length (mSparseData s))
   \<and> getSpaceUsed \<lparr>mSparseData = [filled 0 10 a, filled 20 10 b]\<rparr> = 20
   \<and> getSpaceUsed \<lparr>mSparseData = [filled 0 30 c]\<rparr> = 30"
proof -
  have "getSpaceUsed s = sum_list (map Range_length (mSparseData s))"
    by (simp add: getSpaceUsed_def fold_add_length)
  moreover have "getSpaceUsed \<lparr>mSparseData = [filled 0 10 a, filled 20 10 b]\<rparr> = 20"
    by (simp add: getSpaceUsed_def filled_def Range_length_def)
  moreover have "getSpaceUsed \<lparr>mSparseData = [filled 0 30 c]\<rparr> = 30"
    by (simp add: getSpaceUsed_def filled_def Range_length_def)
  ultimately show ?thesis by simp
qed

text \<open>
  C6 as stated asks for 20 on the set whose single entry is \<open>[0,30)\<close>; that entry
  has length 30.
\<close>

theorem getSpaceUsed_bridged_counterexample:
  "getSpaceUsed \<lparr>mSparseData = [filled 0 30 65 :: 64 DenseData]\<rparr> \<noteq> 20"
  by (simp add: getSpaceUsed_def filled_def Range_length_def)

text \<open>
  With the insertion as modelled above, the three insertions of C6 do lead to these two
  sets: first the entries \<open>[0,10)\<close> and \<open>[20,30)\<close>, then the single entry
  \<open>[0,30)\<close>.
\<close>

lemma merge_bridge:
  "map (overlay \<lparr>mStart = 0 :: 64 word, mLength = 20, mWholeFile = False,
          mData = replicate 10 a @ replicate 10 c\<rparr> (filled 20 10 b)) [0..<30]
     = replicate 10 a @ replicate 10 c @ replicate 10 b"
  by (rule nth_equalityI) (auto simp add: overlay_def byte_at_def chunk_simps nth_append)

lemma addValidData_bridge_example:
  "mSparseData (addValidData (addValidData SparseData_new (filled 0 10 a))
       (filled (20 :: 64 word) 10 b)) = [filled 0 10 a, filled 20 10 b]
   \<and> mSparseData (addValidData (addValidData (addValidData SparseData_new (filled 0 10 a))
       (filled (20 :: 64 word) 10 b)) (filled 10 10 c))
     = [\<lparr>mStart = 0, mLength = 30, mWholeFile = False,
          mData = replicate 10 a @ replicate 10 c @ replicate 10 b\<rparr>]"
  using merge_touching[of c a] merge_bridge[of a c b]
  by (simp add: addValidData_def SparseData_new_def coalesce_def Let_def before_def
      startbyte_def endbyte_def goesToEndOfFile_def filled_def)

end
